theory Spec2Isabelle
  imports Main
begin

section \<open>Reversible in-place addition without clean ancillas\<close>

text \<open>
  A shallow embedding of \<^verbatim>\<open>shor/_add_same_size_no_controls.py\<close>: the functions that
  emit the gate sequence of an in-place ripple adder, its size-adapting and
  control-lifting wrappers, and the two gate tags.  The Python functions send commands
  to an engine; here the engine is the list of commands it has received so far, every
  function takes it and returns it extended, and an exception is a value.
\<close>

subsection \<open>Gates, commands and their action on a bit assignment\<close>

type_synonym qubit = nat

text \<open>
  Modelled from the spec: the gate primitives \<^verbatim>\<open>X\<close>, \<^verbatim>\<open>Swap\<close> and \<^verbatim>\<open>All(X)\<close> of
  \<^verbatim>\<open>projectq.ops\<close> are imported by the source but not part of it.  The spec lists them as
  controlled-NOT, controlled-SWAP, multi-controlled-NOT and global inversion, each
  self-inverse.
\<close>

datatype gate = X | Swap | AllX

text \<open>
  One statement \<^verbatim>\<open>C(g, k) | (controls, targets)\<close> of the source is one command: the
  gate, the \<open>k\<close> leading qubits as controls, the remaining qubits as the gate's operands.
\<close>

datatype command = Command (cmd_gate: gate) (control_qubits: "qubit list") (qubits: "qubit list")

type_synonym engine = "command list"

type_synonym state = "qubit \<Rightarrow> bool"

definition flip :: "qubit \<Rightarrow> state \<Rightarrow> state" where
  "flip q s = s(q := \<not> s q)"

text \<open>
  Modelled from the spec: what each primitive does to a classical bit assignment.
  \<^verbatim>\<open>X\<close> negates its operand, \<^verbatim>\<open>Swap\<close> exchanges its two operands, \<^verbatim>\<open>All(X)\<close> negates
  every operand in turn.  A gate applied to the wrong number of operands is never
  emitted by the source; it is given no effect.
\<close>

fun apply_gate :: "gate \<Rightarrow> qubit list \<Rightarrow> state \<Rightarrow> state" where
  "apply_gate X [t] s = flip t s"
| "apply_gate Swap [a, b] s = s(a := s b, b := s a)"
| "apply_gate AllX qs s = fold flip qs s"
| "apply_gate _ _ s = s"

text \<open>Modelled from the spec: a controlled operation fires iff all its control bits are 1.\<close>

definition apply_command :: "command \<Rightarrow> state \<Rightarrow> state" where
  "apply_command c s =
     (if list_all s (control_qubits c) then apply_gate (cmd_gate c) (qubits c) s else s)"

definition run :: "command list \<Rightarrow> state \<Rightarrow> state" where
  "run cmds s = fold apply_command cmds s"

text \<open>A register read as an unsigned integer, index 0 the least significant bit.\<close>

fun val :: "state \<Rightarrow> qubit list \<Rightarrow> nat" where
  "val s [] = 0"
| "val s (q # qs) = (if s q then 1 else 0) + 2 * val s qs"

text \<open>
  Modelled from the spec: \<^verbatim>\<open>Dagger\<close> of \<^verbatim>\<open>projectq.meta\<close> records the commands of its
  block and forwards them in reverse order, each replaced by its inverse; the three
  primitives are their own inverses.
\<close>

fun gate_inverse :: "gate \<Rightarrow> gate" where
  "gate_inverse X = X"
| "gate_inverse Swap = Swap"
| "gate_inverse AllX = AllX"

definition command_inverse :: "command \<Rightarrow> command" where
  "command_inverse c = Command (gate_inverse (cmd_gate c)) (control_qubits c) (qubits c)"

definition Dagger :: "command list \<Rightarrow> command list" where
  "Dagger cmds = rev (map command_inverse cmds)"

subsection \<open>Exceptions\<close>

text \<open>
  \<^verbatim>\<open>RecursionError\<close> is what the interpreter raises when a call finds no stack frame
  left; the functions that call themselves carry the number of frames still available.
\<close>

datatype error =
    AssertionError
  | NotImplementedError
  | RecursionError
  | NotMergeable string

text \<open>The outcome of a call: the exception it raised, or a normal return, and the engine.\<close>

type_synonym outcome = "(error + unit) \<times> engine"

subsection \<open>The equal-length synthesizer\<close>

definition cnot :: "qubit \<Rightarrow> qubit \<Rightarrow> command" where
  "cnot c t = Command X [c] [t]"

definition cnots :: "qubit \<Rightarrow> qubit list \<Rightarrow> command" where
  "cnots c ts = Command AllX [c] ts"

definition cswap :: "qubit \<Rightarrow> qubit \<Rightarrow> qubit \<Rightarrow> command" where
  "cswap c a b = Command Swap [c] [a, b]"

text \<open>The bodies of the two loops, for index \<open>i\<close>.\<close>

definition ripple_forward_step :: "qubit \<Rightarrow> qubit list \<Rightarrow> qubit list \<Rightarrow> nat \<Rightarrow> command list" where
  "ripple_forward_step carry_bit input_reg target_reg i =
     [cnot carry_bit (target_reg ! i),
      cswap (target_reg ! i) carry_bit (input_reg ! i)]"

definition ripple_backward_step :: "qubit \<Rightarrow> qubit list \<Rightarrow> qubit list \<Rightarrow> nat \<Rightarrow> command list" where
  "ripple_backward_step carry_bit input_reg target_reg i =
     [cswap (target_reg ! i) carry_bit (input_reg ! i),
      cnot (input_reg ! i) (target_reg ! i)]"

text \<open>
  \<^verbatim>\<open>input_reg[-1]\<close> and \<^verbatim>\<open>input_reg[:-1]\<close> are \<open>last\<close> and \<open>butlast\<close>; both are read only
  after the check \<open>n \<noteq> 0\<close>, and every index \<open>i\<close> of the loops is below \<open>n - 1\<close>.
\<close>

definition do_addition_with_same_size_and_no_controls ::
    "engine \<Rightarrow> qubit list \<Rightarrow> qubit list \<Rightarrow> outcome" where
  "do_addition_with_same_size_and_no_controls eng input_reg target_reg =
     (if length input_reg \<noteq> length target_reg then (Inl AssertionError, eng)
      else
        let n = length target_reg in
        if n = 0 then (Inr (), eng)
        else
          let carry_bit = last input_reg;
              eng1 = eng @ [cnots carry_bit (rev (butlast input_reg @ target_reg))];
              eng2 = fold (\<lambda>i e. e @ ripple_forward_step carry_bit input_reg target_reg i)
                       [0..<n - 1] eng1;
              eng3 = eng2 @ [cnot carry_bit (last target_reg)];
              eng4 = fold (\<lambda>i e. e @ ripple_backward_step carry_bit input_reg target_reg i)
                       (rev [0..<n - 1]) eng3;
              eng5 = eng4 @ [cnots carry_bit (butlast input_reg @ target_reg)]
          in (Inr (), eng5))"

subsection \<open>The size-adapting wrapper\<close>

text \<open>
  The source calls \<^verbatim>\<open>do_addition_no_controls\<close> itself on the truncated register, not
  the equal-length synthesizer.  \<open>frames\<close> is the number of stack frames the interpreter
  still has for the call.
\<close>

fun do_addition_no_controls :: "nat \<Rightarrow> engine \<Rightarrow> qubit list \<Rightarrow> qubit list \<Rightarrow> outcome" where
  "do_addition_no_controls 0 eng input_reg target_reg = (Inl RecursionError, eng)"
| "do_addition_no_controls (Suc frames) eng input_reg target_reg =
     (if length input_reg \<ge> length target_reg
      then do_addition_no_controls frames eng (take (length target_reg) input_reg) target_reg
      else (Inl NotImplementedError, eng))"

subsection \<open>The control-lifting wrapper\<close>

text \<open>A \<^verbatim>\<open>for _ in range(k)\<close> loop whose body may raise: the first exception ends it.\<close>

fun for_range :: "nat \<Rightarrow> (engine \<Rightarrow> outcome) \<Rightarrow> engine \<Rightarrow> outcome" where
  "for_range 0 body eng = (Inr (), eng)"
| "for_range (Suc k) body eng =
     (case body eng of
        (Inl e, eng') \<Rightarrow> (Inl e, eng')
      | (Inr _, eng') \<Rightarrow> for_range k body eng')"

definition do_addition ::
    "nat \<Rightarrow> engine \<Rightarrow> qubit list \<Rightarrow> qubit list \<Rightarrow> qubit \<Rightarrow> qubit list \<Rightarrow> outcome" where
  "do_addition frames eng input_reg target_reg dirty controls =
     (if length controls = 0 then do_addition_no_controls frames eng input_reg target_reg
      else
        let expanded = [dirty] @ target_reg in
        for_range 2
          (\<lambda>e. case do_addition_no_controls frames e input_reg expanded of
                  (Inl err, e') \<Rightarrow> (Inl err, e')
                | (Inr _, e') \<Rightarrow>
                    (Inr (), e' @ [Command AllX controls expanded, Command AllX [] expanded]))
          eng)"

text \<open>
  Modelled from the spec: the scoped \<^verbatim>\<open>with Dagger(eng)\<close> of \<^verbatim>\<open>projectq.meta\<close>.  The block
  emits into a recording buffer; when it returns, the buffer is forwarded reversed and
  inverted; when it raises, nothing is forwarded and the exception propagates.  The two
  subtraction entry points run the addition inside it.
\<close>

definition with_Dagger :: "(engine \<Rightarrow> outcome) \<Rightarrow> engine \<Rightarrow> outcome" where
  "with_Dagger block eng =
     (case block [] of
        (Inl e, _) \<Rightarrow> (Inl e, eng)
      | (Inr _, recorded) \<Rightarrow> (Inr (), eng @ Dagger recorded))"

definition do_subtraction ::
    "nat \<Rightarrow> engine \<Rightarrow> qubit list \<Rightarrow> qubit list \<Rightarrow> qubit \<Rightarrow> qubit list \<Rightarrow> outcome" where
  "do_subtraction frames eng input_reg target_reg dirty controls =
     with_Dagger (\<lambda>e. do_addition frames e input_reg target_reg dirty controls) eng"

definition do_subtraction_no_controls ::
    "nat \<Rightarrow> engine \<Rightarrow> qubit list \<Rightarrow> qubit list \<Rightarrow> outcome" where
  "do_subtraction_no_controls frames eng input_reg target_reg =
     with_Dagger (\<lambda>e. do_addition_no_controls frames e input_reg target_reg) eng"

subsection \<open>The gate tags\<close>

datatype arith_gate = AdditionGate | SubtractionGate

fun get_inverse :: "arith_gate \<Rightarrow> arith_gate" where
  "get_inverse AdditionGate = SubtractionGate"
| "get_inverse SubtractionGate = AdditionGate"

fun get_merged :: "arith_gate \<Rightarrow> 'other \<Rightarrow> error + arith_gate" where
  "get_merged AdditionGate other = Inl (NotMergeable ''BasicGate: No get_merged() implemented.'')"
| "get_merged SubtractionGate other = Inl (NotMergeable ''BasicGate: No get_merged() implemented.'')"

subsection \<open>Notions used in the proofs\<close>

text \<open>The gate sequence the synthesizer sends to an engine that has received nothing.\<close>

definition emitted :: "qubit list \<Rightarrow> qubit list \<Rightarrow> command list" where
  "emitted input_reg target_reg =
     snd (do_addition_with_same_size_and_no_controls [] input_reg target_reg)"

text \<open>
  The loop bodies on a pair (input bit, target bit), and the three middle phases as one
  nested sequence: forward steps, the high-bit toggle, backward steps in reverse order.
\<close>

fun fwd :: "qubit \<Rightarrow> qubit \<times> qubit \<Rightarrow> command list" where
  "fwd c (a, t) = [cnot c t, cswap t c a]"

fun bwd :: "qubit \<Rightarrow> qubit \<times> qubit \<Rightarrow> command list" where
  "bwd c (a, t) = [cswap t c a, cnot a t]"

definition ripple :: "qubit \<Rightarrow> (qubit \<times> qubit) list \<Rightarrow> qubit \<Rightarrow> command list" where
  "ripple c ps h = concat (map (fwd c) ps) @ [cnot c h] @ concat (map (bwd c) (rev ps))"

text \<open>A command none of whose controls is among its operands.\<close>

definition ctrl_free :: "command \<Rightarrow> bool" where
  "ctrl_free c = list_all (\<lambda>q. q \<notin> set (qubits c)) (control_qubits c)"

section \<open>Executing command sequences\<close>

lemma run_Nil: "run [] s = s" by (simp add: run_def)
lemma run_Cons: "run (c # cs) s = run cs (apply_command c s)" by (simp add: run_def)
lemma run_append: "run (xs @ ys) s = run ys (run xs s)" by (simp add: run_def)

lemma apply_cnot: "apply_command (cnot c t) s = (if s c then s(t := \<not> s t) else s)"
  by (simp add: apply_command_def cnot_def flip_def)

lemma apply_cswap: "apply_command (cswap c a b) s = (if s c then s(a := s b, b := s a) else s)"
  by (simp add: apply_command_def cswap_def)

lemma apply_cnots: "apply_command (cnots c ts) s = (if s c then fold flip ts s else s)"
  by (simp add: apply_command_def cnots_def)

lemma fold_flip_nth:
  "distinct ts \<Longrightarrow> fold flip ts s q = (if q \<in> set ts then \<not> s q else s q)"
  by (induction ts arbitrary: s) (auto simp: flip_def)

lemma val_cong: "(\<And>q. q \<in> set r \<Longrightarrow> s q = s' q) \<Longrightarrow> val s r = val s' r"
  by (induction r) auto

lemma val_append: "val s (xs @ ys) = val s xs + 2 ^ length xs * val s ys"
  by (induction xs) (auto simp: algebra_simps)

lemma val_less: "val s r < 2 ^ length r"
  by (induction r) auto

lemma val_complement:
  "(\<And>q. q \<in> set r \<Longrightarrow> s' q = (\<not> s q)) \<Longrightarrow> val s' r + val s r + 1 = 2 ^ length r"
  by (induction r) auto

lemma ripple_Nil: "ripple c [] h = [cnot c h]" by (simp add: ripple_def)
lemma ripple_Cons: "ripple c ((a, t) # ps) h = fwd c (a, t) @ ripple c ps h @ bwd c (a, t)"
  by (simp add: ripple_def)

lemma bit_mod: "b < 2 \<Longrightarrow> (b + 2 * y) mod (2 * M) = b + 2 * (y mod M)" for b y M :: nat
proof (cases "M = 0")
  case True
  then show ?thesis by simp
next
  case False
  assume b: "b < 2"
  have "y mod M < M" using False by simp
  then have lt: "b + 2 * (y mod M) < 2 * M" using b by linarith
  have "b + 2 * y = (b + 2 * (y mod M)) + (y div M) * (2 * M)"
  proof -
    have "y = (y div M) * M + y mod M" by simp
    then have "2 * y = 2 * ((y div M) * M) + 2 * (y mod M)"
      by (metis distrib_left)
    then show ?thesis by simp
  qed
  then have "(b + 2 * y) mod (2 * M) = (b + 2 * (y mod M)) mod (2 * M)"
    by (metis mod_mult_self1)
  with lt show ?thesis by simp
qed

lemma dirty_arith:
  fixes B a M :: nat
  assumes B: "B' + B + 1 = 2 * M" and a: "a' + a + 1 = M"
    and f: "f + (B' + a' + 1) mod (2 * M) + 1 = 2 * M"
  shows "f = (B + a + M) mod (2 * M)"
proof (cases "B + a + M < 2 * M")
  case True
  have "B' + a' + 1 = (2 * M - 1 - (B + a + M)) + 1 * (2 * M)" using B a True by linarith
  then have "(B' + a' + 1) mod (2 * M) = (2 * M - 1 - (B + a + M)) mod (2 * M)"
    by (metis mod_mult_self1)
  also have "\<dots> = 2 * M - 1 - (B + a + M)" using True by simp
  finally have "f = B + a + M" using f True by linarith
  then show ?thesis using True by simp
next
  case False
  have lt: "B' + a' + 1 < 2 * M" using B a False by linarith
  have "B + a + M = (B + a + M - 2 * M) + 1 * (2 * M)" using False by linarith
  then have "(B + a + M) mod (2 * M) = (B + a + M - 2 * M) mod (2 * M)"
    by (metis mod_mult_self1)
  also have "\<dots> = B + a + M - 2 * M" using B a by simp
  finally have r: "(B + a + M) mod (2 * M) = B + a + M - 2 * M" .
  have "(B' + a' + 1) mod (2 * M) = B' + a' + 1" using lt by simp
  then have "f = B + a + M - 2 * M" using f B a False by linarith
  with r show ?thesis by simp
qed

section \<open>The ripple computes a carry chain\<close>

lemma run_fwd:
  "run (fwd c (a, t)) s =
     (let s1 = (if s c then s(t := \<not> s t) else s)
      in if s1 t then s1(c := s1 a, a := s1 c) else s1)"
  by (simp add: run_Cons run_Nil apply_cnot apply_cswap Let_def)

lemma run_bwd:
  "run (bwd c (a, t)) s =
     (let s1 = (if s t then s(c := s a, a := s c) else s)
      in if s1 a then s1(t := \<not> s1 t) else s1)"
  by (simp add: run_Cons run_Nil apply_cnot apply_cswap Let_def)

lemma full_adder_bits:
  "(if t then 1 else 0) + (if a then 1 else 0) + (if c then 1 else (0::nat))
     = (if (t \<noteq> c) \<noteq> a then 1 else 0) + 2 * (if (if t \<noteq> c then a else c) then 1 else 0)"
  by auto

lemma ripple_frame:
  "q \<noteq> h \<Longrightarrow> q \<notin> set (map snd ps) \<Longrightarrow> distinct (c # h # map fst ps @ map snd ps)
     \<Longrightarrow> run (ripple c ps h) s q = s q"
proof (induction ps arbitrary: s q)
  case Nil
  then show ?case by (simp add: ripple_Nil run_Cons run_Nil apply_cnot)
next
  case (Cons p ps)
  obtain a t where p: "p = (a, t)" by (cases p)
  have d: "distinct (c # h # map fst ps @ map snd ps)" using Cons.prems p by auto
  have qt: "q \<noteq> t" "q \<notin> set (map snd ps)" using Cons.prems p by auto
  have ne: "a \<noteq> t" "a \<noteq> c" "t \<noteq> c" "a \<noteq> h" "t \<noteq> h" "a \<notin> set (map snd ps)" "t \<notin> set (map snd ps)"
     "c \<notin> set (map snd ps)" "c \<noteq> h"
    using Cons.prems p by auto
  define s1 where "s1 = run (fwd c (a, t)) s"
  define s2 where "s2 = run (ripple c ps h) s1"
  have fr: "\<And>x. x \<noteq> h \<Longrightarrow> x \<notin> set (map snd ps) \<Longrightarrow> s2 x = s1 x"
    unfolding s2_def using Cons.IH d by blast
  have s2c: "s2 c = s1 c" and s2a: "s2 a = s1 a" and s2t: "s2 t = s1 t" and s2q: "s2 q = s1 q"
    using fr ne qt Cons.prems(1) by auto
  have "run (ripple c (p # ps) h) s q = run (bwd c (a, t)) s2 q"
    by (simp only: p ripple_Cons run_append s1_def s2_def)
  also have "\<dots> = s q"
    using ne qt s2c s2a s2t s2q unfolding run_bwd s1_def run_fwd
    by (auto simp: Let_def)
  finally show ?case .
qed

lemma ripple_val:
  "distinct (c # h # map fst ps @ map snd ps) \<Longrightarrow>
   val (run (ripple c ps h) s) (map snd ps @ [h]) =
     (val s (map snd ps @ [h]) + val s (map fst ps) + (if s c then 1 else 0))
       mod 2 ^ Suc (length ps)"
proof (induction ps arbitrary: s)
  case Nil
  then show ?case by (simp add: ripple_Nil run_Cons run_Nil apply_cnot)
next
  case (Cons p ps)
  obtain a t where p: "p = (a, t)" by (cases p)
  let ?T = "map snd ps @ [h]" and ?A = "map fst ps"
  have d: "distinct (c # h # map fst ps @ map snd ps)" using Cons.prems p by auto
  have ne: "a \<noteq> t" "a \<noteq> c" "t \<noteq> c" "a \<noteq> h" "t \<noteq> h" "a \<notin> set (map snd ps)"
     "t \<notin> set (map snd ps)" "c \<notin> set (map snd ps)" "c \<noteq> h"
     "a \<notin> set ?A" "t \<notin> set ?A" "c \<notin> set ?A"
    using Cons.prems p by auto
  define s1 where "s1 = run (fwd c (a, t)) s"
  define s2 where "s2 = run (ripple c ps h) s1"
  define s3 where "s3 = run (bwd c (a, t)) s2"
  have s3: "run (ripple c (p # ps) h) s = s3"
    by (simp only: p ripple_Cons run_append s1_def s2_def s3_def)
  have s1_other: "\<And>x. x \<noteq> a \<Longrightarrow> x \<noteq> t \<Longrightarrow> x \<noteq> c \<Longrightarrow> s1 x = s x"
    unfolding s1_def run_fwd by (simp add: Let_def)
  have s1t: "s1 t = (s t \<noteq> s c)" and s1c: "s1 c = (if s t \<noteq> s c then s a else s c)"
    and s1a: "s1 a = (if s t \<noteq> s c then s c else s a)"
    unfolding s1_def run_fwd using ne by (auto simp: Let_def)
  have fr: "\<And>x. x \<noteq> h \<Longrightarrow> x \<notin> set (map snd ps) \<Longrightarrow> s2 x = s1 x"
    unfolding s2_def using ripple_frame d by blast
  have s2c: "s2 c = s1 c" and s2a: "s2 a = s1 a" and s2t: "s2 t = s1 t"
    using fr ne by auto
  have s3_other: "\<And>x. x \<noteq> a \<Longrightarrow> x \<noteq> t \<Longrightarrow> x \<noteq> c \<Longrightarrow> s3 x = s2 x"
    unfolding s3_def run_bwd by (simp add: Let_def)
  have s3t: "s3 t = ((s t \<noteq> s c) \<noteq> s a)"
    unfolding s3_def run_bwd using ne s2c s2a s2t s1t s1c s1a by (auto simp: Let_def)
  have offT: "\<And>q. q \<in> set ?T \<Longrightarrow> q \<noteq> a \<and> q \<noteq> t \<and> q \<noteq> c"
    using ne by auto
  have offA: "\<And>q. q \<in> set ?A \<Longrightarrow> q \<noteq> a \<and> q \<noteq> t \<and> q \<noteq> c"
    using ne by auto
  have v1T: "val s1 ?T = val s ?T"
    by (rule val_cong) (simp add: s1_other offT)
  have v1A: "val s1 ?A = val s ?A"
    by (rule val_cong) (simp add: s1_other offA)
  have v3T: "val s3 ?T = val s2 ?T"
    by (rule val_cong) (simp add: s3_other offT)
  have ih: "val s2 ?T = (val s ?T + val s ?A + (if s1 c then 1 else 0)) mod 2 ^ Suc (length ps)"
    unfolding s2_def using Cons.IH [OF d, of s1] v1T v1A by simp
  let ?x = "if (s t \<noteq> s c) \<noteq> s a then 1 else (0::nat)"
  let ?m = "if s1 c then 1 else (0::nat)"
  have bits: "(if s t then 1 else 0) + (if s a then 1 else 0) + (if s c then 1 else (0::nat))
      = ?x + 2 * ?m"
    unfolding s1c by (rule full_adder_bits)
  have "val s3 (t # ?T) = ?x + 2 * ((val s ?T + val s ?A + ?m) mod 2 ^ Suc (length ps))"
    using s3t v3T ih by simp
  also have "\<dots> = (?x + 2 * (val s ?T + val s ?A + ?m)) mod (2 * 2 ^ Suc (length ps))"
    by (rule bit_mod [symmetric]) simp
  also have "?x + 2 * (val s ?T + val s ?A + ?m)
      = val s (t # ?T) + val s (a # ?A) + (if s c then 1 else 0)"
    using bits by simp
  finally show ?case using s3 p by simp
qed

section \<open>The emitted sequence and its effect\<close>

lemma fold_emit: "fold (\<lambda>i e. e @ f i) js e = e @ concat (map f js)"
  by (induction js arbitrary: e) simp_all

lemma forward_steps:
  "length input_reg = length target_reg \<Longrightarrow>
   map (ripple_forward_step c input_reg target_reg) [0..<length target_reg - Suc 0]
     = map (fwd c) (zip (butlast input_reg) (butlast target_reg))"
  by (rule nth_equalityI) (simp_all add: ripple_forward_step_def nth_butlast)

lemma backward_steps:
  "length input_reg = length target_reg \<Longrightarrow>
   map (ripple_backward_step c input_reg target_reg) [0..<length target_reg - Suc 0]
     = map (bwd c) (zip (butlast input_reg) (butlast target_reg))"
  by (rule nth_equalityI) (simp_all add: ripple_backward_step_def nth_butlast)

lemma backward_steps_rev:
  "length input_reg = length target_reg \<Longrightarrow>
   map (ripple_backward_step c input_reg target_reg) (rev [0..<length target_reg - Suc 0])
     = map (bwd c) (rev (zip (butlast input_reg) (butlast target_reg)))"
  by (simp only: rev_map [symmetric] backward_steps)

lemma same_size_emitted:
  assumes "length input_reg = length target_reg" and "target_reg \<noteq> []"
  shows "do_addition_with_same_size_and_no_controls eng input_reg target_reg =
     (Inr (), eng @ cnots (last input_reg) (rev (butlast input_reg @ target_reg))
        # ripple (last input_reg) (zip (butlast input_reg) (butlast target_reg)) (last target_reg)
        @ [cnots (last input_reg) (butlast input_reg @ target_reg)])"
  using assms
  by (simp add: do_addition_with_same_size_and_no_controls_def Let_def fold_emit ripple_def
        forward_steps backward_steps_rev del: fwd.simps bwd.simps)

lemma same_size_empty:
  "do_addition_with_same_size_and_no_controls eng [] [] = (Inr (), eng)"
  by (simp add: do_addition_with_same_size_and_no_controls_def)

lemma adder_sem:
  assumes len: "length input_reg = length target_reg"
    and dist: "distinct (input_reg @ target_reg)"
  shows "(\<forall>q. q \<notin> set target_reg \<longrightarrow> run (emitted input_reg target_reg) s q = s q)
    \<and> val (run (emitted input_reg target_reg) s) target_reg
        = (val s target_reg + val s input_reg) mod 2 ^ length target_reg"
proof (cases "target_reg = []")
  case True
  then show ?thesis using len by (simp add: emitted_def same_size_empty run_Nil)
next
  case False
  then have ine: "input_reg \<noteq> []" using len by auto
  define c where "c = last input_reg"
  define h where "h = last target_reg"
  define A where "A = butlast input_reg"
  define T where "T = butlast target_reg"
  define ps where "ps = zip A T"
  have I: "input_reg = A @ [c]" and Tg: "target_reg = T @ [h]"
    using False ine by (simp_all add: c_def h_def A_def T_def)
  have lenAT: "length A = length T" using len by (simp add: A_def T_def)
  have fst_ps: "map fst ps = A" and snd_ps: "map snd ps = T" and len_ps: "length ps = length T"
    using lenAT by (simp_all add: ps_def)
  have d: "distinct (c # h # map fst ps @ map snd ps)"
    using dist unfolding fst_ps snd_ps I Tg by auto
  have dAT: "distinct (A @ target_reg)" and cA: "c \<notin> set A" and cT: "c \<notin> set target_reg"
    using dist unfolding I by auto
  have em: "emitted input_reg target_reg
      = cnots c (rev (A @ target_reg)) # ripple c ps h @ [cnots c (A @ target_reg)]"
    unfolding emitted_def
    by (simp add: same_size_emitted [OF len False] c_def h_def A_def T_def ps_def)
  have valI: "val s input_reg = val s A + 2 ^ length T * (if s c then 1 else 0)"
    unfolding I by (simp add: val_append lenAT)
  have rip_frame: "\<And>s q. q \<notin> set target_reg \<Longrightarrow> run (ripple c ps h) s q = s q"
    using ripple_frame [OF _ _ d] unfolding snd_ps Tg by simp
  have rip_val: "\<And>s. val (run (ripple c ps h) s) target_reg
      = (val s target_reg + val s A + (if s c then 1 else 0)) mod 2 ^ length target_reg"
    using ripple_val [OF d] unfolding snd_ps fst_ps len_ps Tg by simp
  show ?thesis
  proof (cases "s c")
    case False
    have r: "run (emitted input_reg target_reg) s = run (ripple c ps h) s"
      using False rip_frame [OF cT, of s]
      by (simp add: em run_Cons run_append run_Nil apply_cnots)
    show ?thesis unfolding r using rip_frame rip_val [of s] valI False by simp
  next
    case True
    define s1 where "s1 = fold flip (rev (A @ target_reg)) s"
    define s2 where "s2 = run (ripple c ps h) s1"
    define s3 where "s3 = fold flip (A @ target_reg) s2"
    have drev: "distinct (rev (A @ target_reg))" using dAT by (simp only: distinct_rev)
    have s1: "\<And>q. s1 q = (if q \<in> set (A @ target_reg) then \<not> s q else s q)"
      unfolding s1_def by (simp only: fold_flip_nth [OF drev] set_rev)
    have s3: "\<And>q. s3 q = (if q \<in> set (A @ target_reg) then \<not> s2 q else s2 q)"
      unfolding s3_def by (simp only: fold_flip_nth [OF dAT])
    have s1c: "s1 c" using s1 [of c] cA cT True by simp
    have s2c: "s2 c" unfolding s2_def using rip_frame [OF cT] s1c by simp
    have r1: "apply_command (cnots c (rev (A @ target_reg))) s = s1"
      using True by (simp only: apply_cnots if_True s1_def)
    have r3: "apply_command (cnots c (A @ target_reg)) s2 = s3"
      using s2c by (simp only: apply_cnots if_True s3_def)
    have r: "run (emitted input_reg target_reg) s = s3"
      by (simp only: em run_Cons run_append run_Nil r1 s2_def [symmetric] r3)
    have frame: "\<And>q. q \<notin> set target_reg \<Longrightarrow> s3 q = s q"
      using s3 s1 rip_frame unfolding s2_def by auto
    have lenT: "length target_reg = Suc (length T)" unfolding Tg by simp
    have n1T: "\<And>q. q \<in> set target_reg \<Longrightarrow> s1 q = (\<not> s q)"
      and n1A: "\<And>q. q \<in> set A \<Longrightarrow> s1 q = (\<not> s q)"
      and n3T: "\<And>q. q \<in> set target_reg \<Longrightarrow> s3 q = (\<not> s2 q)"
      by (simp_all add: s1 s3)
    have B: "val s1 target_reg + val s target_reg + 1 = 2 * 2 ^ length T"
      using val_complement [of target_reg s1 s, OF n1T] by (simp add: lenT)
    have a: "val s1 A + val s A + 1 = 2 ^ length T"
      using val_complement [of A s1 s, OF n1A] by (simp add: lenAT)
    have v2: "val s2 target_reg = (val s1 target_reg + val s1 A + 1) mod (2 * 2 ^ length T)"
      unfolding s2_def using rip_val [of s1] s1c by (simp add: lenT)
    have f: "val s3 target_reg + (val s1 target_reg + val s1 A + 1) mod (2 * 2 ^ length T) + 1
        = 2 * 2 ^ length T"
      using val_complement [of target_reg s3 s2, OF n3T] v2 by (simp add: lenT)
    have "val s3 target_reg = (val s target_reg + val s A + 2 ^ length T) mod (2 * 2 ^ length T)"
      by (rule dirty_arith [OF B a f])
    then have "val s3 target_reg = (val s target_reg + val s input_reg) mod 2 ^ length target_reg"
      using valI True by (simp add: lenT add.assoc)
    then show ?thesis unfolding r using frame by simp
  qed
qed

section \<open>Every emitted command is its own inverse\<close>

lemma flip_flip: "flip q (flip q s) = s"
  by (simp add: flip_def fun_eq_iff)

lemma flip_commute: "flip a (flip b s) = flip b (flip a s)"
  by (auto simp: flip_def fun_eq_iff)

lemma fold_flip_flip: "fold flip ts (flip t s) = flip t (fold flip ts s)"
proof (induction ts arbitrary: s)
  case Nil
  show ?case by simp
next
  case (Cons a ts)
  have "fold flip (a # ts) (flip t s) = fold flip ts (flip t (flip a s))"
    by (simp add: flip_commute [of a t])
  then show ?case by (simp add: Cons.IH)
qed

lemma fold_flip_twice: "fold flip ts (fold flip ts s) = s"
  by (induction ts arbitrary: s) (simp_all add: fold_flip_flip flip_flip)

lemma fold_flip_rev: "fold flip (rev ts) s = fold flip ts s"
  by (induction ts arbitrary: s) (simp_all add: fold_flip_flip)

lemma fold_flip_other: "q \<notin> set ts \<Longrightarrow> fold flip ts s q = s q"
  by (induction ts arbitrary: s) (auto simp: flip_def)

lemma apply_gate_other: "q \<notin> set qs \<Longrightarrow> apply_gate g qs s q = s q"
  by (induction g qs s rule: apply_gate.induct) (auto simp: flip_def fold_flip_other)

lemma apply_gate_twice: "apply_gate g qs (apply_gate g qs s) = s"
  by (induction g qs s rule: apply_gate.induct)
     (auto simp: flip_flip fold_flip_twice fun_eq_iff)

lemma apply_command_twice:
  assumes "ctrl_free c"
  shows "apply_command c (apply_command c s) = s"
proof -
  have "list_all (apply_gate (cmd_gate c) (qubits c) s) (control_qubits c)
      = list_all s (control_qubits c)"
    using assms by (auto simp: ctrl_free_def list_all_iff apply_gate_other)
  then show ?thesis by (simp add: apply_command_def apply_gate_twice)
qed

lemma command_inverse_self: "command_inverse c = c"
  by (cases c; cases "cmd_gate c") (simp_all add: command_inverse_def)

lemma Dagger_rev: "Dagger cmds = rev cmds"
proof -
  have "map command_inverse cmds = cmds"
    by (induction cmds) (simp_all add: command_inverse_self)
  then show ?thesis by (simp add: Dagger_def)
qed

lemma run_Dagger:
  "list_all ctrl_free cmds \<Longrightarrow> run (cmds @ Dagger cmds) s = s"
proof (induction cmds arbitrary: s)
  case Nil
  show ?case by (simp add: Dagger_rev run_Nil)
next
  case (Cons c cmds)
  have "run ((c # cmds) @ Dagger (c # cmds)) s
      = apply_command c (run (cmds @ Dagger cmds) (apply_command c s))"
    by (simp add: Dagger_rev run_Cons run_append run_Nil)
  then show ?case using Cons by (simp add: apply_command_twice)
qed

lemma ripple_ctrl_free:
  "distinct (c # h # map fst ps @ map snd ps) \<Longrightarrow> list_all ctrl_free (ripple c ps h)"
  by (induction ps) (auto simp: ripple_def ctrl_free_def cnot_def cswap_def)

section \<open>The equal-length synthesizer: results\<close>

lemma ripple_length: "length (ripple c ps h) = 4 * length ps + 1"
  by (induction ps) (auto simp: ripple_def)

lemma emitted_unequal: "length input_reg \<noteq> length target_reg \<Longrightarrow> emitted input_reg target_reg = []"
  by (simp add: emitted_def do_addition_with_same_size_and_no_controls_def)

lemma emitted_closed:
  assumes "length input_reg = length target_reg" and "target_reg \<noteq> []"
  shows "emitted input_reg target_reg =
     cnots (last input_reg) (rev (butlast input_reg @ target_reg))
       # ripple (last input_reg) (zip (butlast input_reg) (butlast target_reg)) (last target_reg)
       @ [cnots (last input_reg) (butlast input_reg @ target_reg)]"
  by (simp add: emitted_def same_size_emitted [OF assms])

lemma emitted_length:
  assumes "length input_reg = length target_reg" and "target_reg \<noteq> []"
  shows "length (emitted input_reg target_reg) = 4 * length target_reg - 1"
proof -
  have "length (emitted input_reg target_reg) = 4 * (length target_reg - 1) + 3"
    using assms(1) by (simp add: emitted_closed [OF assms] ripple_length)
  moreover have "0 < length target_reg" using assms(2) by simp
  ultimately show ?thesis by arith
qed

lemma emitted_length_le: "length (emitted input_reg target_reg) \<le> 4 * length target_reg"
proof (cases "length input_reg = length target_reg \<and> target_reg \<noteq> []")
  case True
  then show ?thesis by (simp add: emitted_length)
next
  case False
  have "emitted input_reg target_reg = []"
  proof (cases "length input_reg = length target_reg")
    case True
    then have "input_reg = []" "target_reg = []" using False by auto
    then show ?thesis by (simp add: emitted_def same_size_empty)
  next
    case False
    then show ?thesis by (rule emitted_unequal)
  qed
  then show ?thesis by simp
qed

lemma same_size_returns:
  "length input_reg = length target_reg \<Longrightarrow>
   do_addition_with_same_size_and_no_controls [] input_reg target_reg
     = (Inr (), emitted input_reg target_reg)"
  by (cases "target_reg = []") (simp_all add: emitted_def same_size_emitted same_size_empty)

lemma emitted_ctrl_free:
  assumes len: "length input_reg = length target_reg"
    and dist: "distinct (input_reg @ target_reg)"
  shows "list_all ctrl_free (emitted input_reg target_reg)"
proof (cases "target_reg = []")
  case True
  then show ?thesis using len by (simp add: emitted_def same_size_empty)
next
  case False
  then have ine: "input_reg \<noteq> []" using len by auto
  have I: "input_reg = butlast input_reg @ [last input_reg]"
    and T: "target_reg = butlast target_reg @ [last target_reg]"
    using False ine by simp_all
  have lenb: "length (butlast input_reg) = length (butlast target_reg)" using len by simp
  have d0: "distinct ((butlast input_reg @ [last input_reg]) @ butlast target_reg @ [last target_reg])"
    using dist I T by metis
  have d: "distinct (last input_reg # last target_reg #
      map fst (zip (butlast input_reg) (butlast target_reg))
      @ map snd (zip (butlast input_reg) (butlast target_reg)))"
    using d0 lenb by auto
  have c: "last input_reg \<notin> set (butlast input_reg @ target_reg)"
    using d0 T by (metis distinct_append Un_iff set_append disjoint_iff list.set_intros(1))
  show ?thesis
    using c by (simp add: emitted_closed [OF len False] ripple_ctrl_free [OF d]
        ctrl_free_def cnots_def)
qed

text \<open>
  C1.  On registers of equal length \<open>n\<close> made of distinct bits, the synthesizer returns
  normally, and executing the sequence it emitted on any bit assignment leaves the input
  register holding the same number \<open>a\<close> and the target register holding
  \<open>(a + b) mod 2 ^ n\<close>, where \<open>b\<close> is the number the target held before.  Both numbers
  are below \<open>2 ^ n\<close> by construction; the case \<open>n = 0\<close> is included.
\<close>

theorem addition_correct:
  assumes "length input_reg = length target_reg" and "distinct (input_reg @ target_reg)"
  shows "do_addition_with_same_size_and_no_controls [] input_reg target_reg
       = (Inr (), emitted input_reg target_reg)
    \<and> val (run (emitted input_reg target_reg) s) input_reg = val s input_reg
    \<and> val (run (emitted input_reg target_reg) s) target_reg
       = (val s input_reg + val s target_reg) mod 2 ^ length target_reg"
proof -
  have "\<And>q. q \<in> set input_reg \<Longrightarrow> run (emitted input_reg target_reg) s q = s q"
    using adder_sem [OF assms, of s] assms(2) by auto
  then have "val (run (emitted input_reg target_reg) s) input_reg = val s input_reg"
    by (rule val_cong)
  then show ?thesis
    using adder_sem [OF assms, of s] same_size_returns [OF assms(1)] by (simp add: add.commute)
qed

theorem addition_correct_witness:
  "length [0::nat, 1, 2] = length [3::nat, 4, 5] \<and> distinct ([0::nat, 1, 2] @ [3, 4, 5])
   \<and> val (\<lambda>q. q = 0 \<or> q = 2 \<or> q = 4) [0, 1, 2] = 5
   \<and> val (\<lambda>q. q = 0 \<or> q = 2 \<or> q = 4) [3, 4, 5] = 2
   \<and> val (run (emitted [0, 1, 2] [3, 4, 5]) (\<lambda>q. q = 0 \<or> q = 2 \<or> q = 4)) [0, 1, 2] = 5
   \<and> val (run (emitted [0, 1, 2] [3, 4, 5]) (\<lambda>q. q = 0 \<or> q = 2 \<or> q = 4)) [3, 4, 5] = 7"
  using addition_correct [of "[0, 1, 2]" "[3, 4, 5]" "\<lambda>q. q = 0 \<or> q = 2 \<or> q = 4"]
  by simp

text \<open>
  C2.  Executing the addition sequence and then its \<^verbatim>\<open>Dagger\<close> (the same commands in
  reverse order, each replaced by its inverse) gives back the bit assignment one started
  from, on every bit: both registers, the borrowed carry bit whatever it held, and every
  bit outside the registers.
\<close>

theorem addition_then_dagger_identity:
  assumes "length input_reg = length target_reg" and "distinct (input_reg @ target_reg)"
  shows "run (emitted input_reg target_reg @ Dagger (emitted input_reg target_reg)) s = s"
  using emitted_ctrl_free [OF assms] by (rule run_Dagger)

theorem addition_then_dagger_identity_witness:
  "length [0::nat, 1] = length [2::nat, 3] \<and> distinct ([0::nat, 1] @ [2, 3])
   \<and> run (emitted [0, 1] [2, 3] @ Dagger (emitted [0, 1] [2, 3])) (\<lambda>q. q = 1 \<or> q = 2)
       = (\<lambda>q. q = 1 \<or> q = 2)"
  using addition_then_dagger_identity [of "[0, 1]" "[2, 3]" "\<lambda>q. q = 1 \<or> q = 2"]
  by simp

text \<open>
  C3.  After the whole sequence every bit of the input register has the value it had
  before, whatever the bits held; for \<open>n \<ge> 1\<close> this includes the borrowed carry bit, the
  last bit of the input register.
\<close>

theorem input_register_restored:
  assumes "length input_reg = length target_reg" and "distinct (input_reg @ target_reg)"
  shows "map (run (emitted input_reg target_reg) s) input_reg = map s input_reg
    \<and> (input_reg \<noteq> [] \<longrightarrow>
         run (emitted input_reg target_reg) s (last input_reg) = s (last input_reg))"
proof -
  have "\<And>q. q \<in> set input_reg \<Longrightarrow> run (emitted input_reg target_reg) s q = s q"
    using adder_sem [OF assms, of s] assms(2) by auto
  then show ?thesis by simp
qed

theorem input_register_restored_witness:
  "length [0::nat, 1] = length [2::nat, 3] \<and> distinct ([0::nat, 1] @ [2, 3])
   \<and> map (run (emitted [0, 1] [2, 3]) (\<lambda>q. q = 1 \<or> q = 2)) [0, 1] = [False, True]
   \<and> run (emitted [0, 1] [2, 3]) (\<lambda>q. q = 1 \<or> q = 2) 1"
  using input_register_restored [of "[0, 1]" "[2, 3]" "\<lambda>q. q = 1 \<or> q = 2"]
  by simp

lemma cnots_rev: "apply_command (cnots c (rev ts)) = apply_command (cnots c ts)"
  by (rule ext) (simp add: apply_cnots fold_flip_rev)

lemma cnots_keeps_control: "c \<notin> set ts \<Longrightarrow> apply_command (cnots c ts) s c = s c"
  by (simp add: apply_cnots fold_flip_other)

lemma carry_before_last:
  assumes "length input_reg = length target_reg" and "distinct (input_reg @ target_reg)"
    and "target_reg \<noteq> []"
  shows "apply_command (last (emitted input_reg target_reg)) s' (last input_reg) = s' (last input_reg)
    \<and> run (butlast (emitted input_reg target_reg)) s (last input_reg) = s (last input_reg)"
proof -
  let ?E = "emitted input_reg target_reg" and ?c = "last input_reg"
  have l: "last ?E = cnots ?c (butlast input_reg @ target_reg)"
    by (simp add: emitted_closed [OF assms(1,3)])
  have ine: "input_reg \<noteq> []" using assms(1,3) by auto
  then have "input_reg = butlast input_reg @ [?c]" by simp
  then have "distinct ((butlast input_reg @ [?c]) @ target_reg)" using assms(2) by metis
  then have notin: "?c \<notin> set (butlast input_reg @ target_reg)" by auto
  have keep: "\<And>s'. apply_command (last ?E) s' ?c = s' ?c"
    unfolding l using notin by (rule cnots_keeps_control)
  have "?E \<noteq> []" by (simp add: emitted_closed [OF assms(1,3)])
  then have "?E = butlast ?E @ [last ?E]" by simp
  then have "run ?E s = apply_command (last ?E) (run (butlast ?E) s)"
    by (metis run_append run_Cons run_Nil)
  then have "run ?E s ?c = run (butlast ?E) s ?c" using keep by simp
  moreover have "?c \<notin> set target_reg" using notin by simp
  then have "run ?E s ?c = s ?c" using adder_sem [OF assms(1,2), of s] by simp
  ultimately show ?thesis using keep by simp
qed

text \<open>
  C8.  For \<open>n \<ge> 1\<close> the first and the last command of the sequence are the same
  multi-target controlled-NOT: the same gate, the carry bit as the only control, the
  same set of operands (the remaining input bits and all target bits, listed in opposite
  orders), hence the same action on every bit assignment; and after the last command the
  carry bit holds its original value.  The carry bit is the control of that command, which
  therefore never changes it: it holds its original value already before the last command.
\<close>

theorem dirty_corrections_agree:
  assumes "length input_reg = length target_reg" and "distinct (input_reg @ target_reg)"
    and "target_reg \<noteq> []"
  shows "hd (emitted input_reg target_reg)
       = cnots (last input_reg) (rev (butlast input_reg @ target_reg))
    \<and> last (emitted input_reg target_reg)
       = cnots (last input_reg) (butlast input_reg @ target_reg)
    \<and> cmd_gate (hd (emitted input_reg target_reg)) = cmd_gate (last (emitted input_reg target_reg))
    \<and> control_qubits (hd (emitted input_reg target_reg)) = [last input_reg]
    \<and> control_qubits (last (emitted input_reg target_reg)) = [last input_reg]
    \<and> set (qubits (hd (emitted input_reg target_reg))) = set (butlast input_reg) \<union> set target_reg
    \<and> set (qubits (last (emitted input_reg target_reg))) = set (butlast input_reg) \<union> set target_reg
    \<and> apply_command (hd (emitted input_reg target_reg))
       = apply_command (last (emitted input_reg target_reg))
    \<and> run (emitted input_reg target_reg) s (last input_reg) = s (last input_reg)
    \<and> apply_command (last (emitted input_reg target_reg)) s' (last input_reg)
       = s' (last input_reg)
    \<and> run (butlast (emitted input_reg target_reg)) s (last input_reg) = s (last input_reg)"
proof -
  have h: "hd (emitted input_reg target_reg)
      = cnots (last input_reg) (rev (butlast input_reg @ target_reg))"
    and l: "last (emitted input_reg target_reg)
      = cnots (last input_reg) (butlast input_reg @ target_reg)"
    by (simp_all add: emitted_closed [OF assms(1,3)])
  have "input_reg \<noteq> []" using assms(1,3) by auto
  then have "last input_reg \<in> set input_reg" by simp
  then have "last input_reg \<notin> set target_reg" using assms(2) by auto
  then have c: "run (emitted input_reg target_reg) s (last input_reg) = s (last input_reg)"
    using adder_sem [OF assms(1,2), of s] by simp
  have g: "cmd_gate (cnots (last input_reg) (rev (butlast input_reg @ target_reg)))
      = cmd_gate (cnots (last input_reg) (butlast input_reg @ target_reg))"
    and c1: "control_qubits (cnots (last input_reg) (rev (butlast input_reg @ target_reg)))
      = [last input_reg]"
    and c5: "control_qubits (cnots (last input_reg) (butlast input_reg @ target_reg))
      = [last input_reg]"
    and q1: "set (qubits (cnots (last input_reg) (rev (butlast input_reg @ target_reg))))
      = set (butlast input_reg) \<union> set target_reg"
    and q5: "set (qubits (cnots (last input_reg) (butlast input_reg @ target_reg)))
      = set (butlast input_reg) \<union> set target_reg"
    by (auto simp: cnots_def)
  have b: "apply_command (last (emitted input_reg target_reg)) s' (last input_reg)
       = s' (last input_reg)
    \<and> run (butlast (emitted input_reg target_reg)) s (last input_reg) = s (last input_reg)"
    using assms by (rule carry_before_last)
  have a: "hd (emitted input_reg target_reg)
       = cnots (last input_reg) (rev (butlast input_reg @ target_reg))
    \<and> last (emitted input_reg target_reg)
       = cnots (last input_reg) (butlast input_reg @ target_reg)
    \<and> cmd_gate (hd (emitted input_reg target_reg)) = cmd_gate (last (emitted input_reg target_reg))
    \<and> control_qubits (hd (emitted input_reg target_reg)) = [last input_reg]
    \<and> control_qubits (last (emitted input_reg target_reg)) = [last input_reg]
    \<and> set (qubits (hd (emitted input_reg target_reg))) = set (butlast input_reg) \<union> set target_reg
    \<and> set (qubits (last (emitted input_reg target_reg))) = set (butlast input_reg) \<union> set target_reg
    \<and> apply_command (hd (emitted input_reg target_reg))
       = apply_command (last (emitted input_reg target_reg))
    \<and> run (emitted input_reg target_reg) s (last input_reg) = s (last input_reg)"
    unfolding h l using g c1 c5 q1 q5 cnots_rev c by blast
  from a b show ?thesis by blast
qed

theorem dirty_corrections_agree_witness:
  "length [0::nat, 1] = length [2::nat, 3] \<and> distinct ([0::nat, 1] @ [2, 3]) \<and> [2::nat, 3] \<noteq> []
   \<and> hd (emitted [0, 1] [2, 3]) = cnots 1 [3, 2, 0]
   \<and> last (emitted [0, 1] [2, 3]) = cnots 1 [0, 2, 3]
   \<and> apply_command (hd (emitted [0, 1] [2, 3])) = apply_command (last (emitted [0, 1] [2, 3]))
   \<and> run (emitted [0, 1] [2, 3]) (\<lambda>q. q = 1 \<or> q = 2) 1
   \<and> run (butlast (emitted [0, 1] [2, 3])) (\<lambda>q. q = 1 \<or> q = 2) 1"
proof -
  have "apply_command (cnots 1 [3, 2, 0]) = apply_command (cnots 1 (rev [0, 2, 3]))"
    by simp
  then have "apply_command (cnots 1 [3, 2, 0]) = apply_command (cnots 1 [0, 2, 3])"
    by (simp only: cnots_rev)
  then show ?thesis
    using dirty_corrections_agree [of "[0, 1]" "[2, 3]" "\<lambda>q. q = 1 \<or> q = 2" "\<lambda>q. False"]
    by simp
qed


section \<open>The wrappers never reach the synthesizer\<close>

lemma no_controls_outcome:
  "do_addition_no_controls frames eng input_reg target_reg =
     (if frames = 0 \<or> length target_reg \<le> length input_reg
      then (Inl RecursionError, eng) else (Inl NotImplementedError, eng))"
proof (induction frames arbitrary: input_reg)
  case 0
  show ?case by simp
next
  case (Suc frames)
  show ?case by (simp add: Suc.IH)
qed

lemma no_controls_engine:
  "snd (do_addition_no_controls frames eng input_reg target_reg) = eng"
  by (simp add: no_controls_outcome)

lemma no_controls_raises:
  "isl (fst (do_addition_no_controls frames eng input_reg target_reg))"
  by (simp add: no_controls_outcome)

lemma do_addition_outcome:
  "do_addition frames eng input_reg target_reg dirty controls =
     do_addition_no_controls frames eng input_reg
       (if controls = [] then target_reg else dirty # target_reg)"
  by (simp add: do_addition_def no_controls_outcome numeral_2_eq_2)

text \<open>
  C9.  The synthesizer emits at most \<open>4 * n\<close> commands (exactly \<open>4 * n - 1\<close> for
  \<open>n \<ge> 1\<close>, see \<open>emitted_length\<close>) and none for \<open>n = 0\<close>.  With at least one control,
  \<^verbatim>\<open>do_addition\<close> raises in the first statement of its first pass and emits no command at
  all: neither the two addition passes nor the four multi-NOTs.
\<close>

theorem gate_count:
  "length (emitted input_reg target_reg) \<le> 4 * length target_reg
   \<and> emitted [] [] = []
   \<and> isl (fst (do_addition frames [] input_reg target_reg dirty (c # controls)))
   \<and> length (snd (do_addition frames [] input_reg target_reg dirty (c # controls))) = 0"
proof -
  have "emitted [] [] = []" by (simp add: emitted_def same_size_empty)
  then show ?thesis
    using emitted_length_le [of input_reg target_reg]
    by (simp add: do_addition_outcome no_controls_raises no_controls_engine)
qed

text \<open>The subtraction entry points raise with the addition they wrap.\<close>

lemma subtraction_never_emits:
  "isl (fst (do_subtraction_no_controls frames eng input_reg target_reg))
   \<and> snd (do_subtraction_no_controls frames eng input_reg target_reg) = eng
   \<and> isl (fst (do_subtraction frames eng input_reg target_reg dirty controls))
   \<and> snd (do_subtraction frames eng input_reg target_reg dirty controls) = eng"
  by (simp add: do_subtraction_no_controls_def do_subtraction_def with_Dagger_def
        do_addition_outcome no_controls_outcome)

section \<open>The gate tags\<close>

text \<open>
  C10.  Inverting the addition tag gives the subtraction tag and conversely, so inverting
  twice gives back the tag one started from; merging either tag with anything raises
  \<^verbatim>\<open>NotMergeable\<close>.
\<close>

theorem gate_tag_inverse_involution:
  "get_inverse AdditionGate = SubtractionGate
   \<and> get_inverse SubtractionGate = AdditionGate
   \<and> get_inverse (get_inverse g) = g
   \<and> get_merged g other = Inl (NotMergeable ''BasicGate: No get_merged() implemented.'')"
  by (cases g) simp_all

section \<open>The size-adapting wrapper\<close>

text \<open>
  C6.  Called with an input register shorter than the target register (and a stack frame
  to run in), \<^verbatim>\<open>do_addition_no_controls\<close> raises \<^verbatim>\<open>NotImplementedError\<close> and the engine
  has received nothing.
\<close>

theorem shorter_input_not_implemented:
  assumes "length input_reg < length target_reg" and "0 < frames"
  shows "do_addition_no_controls frames eng input_reg target_reg = (Inl NotImplementedError, eng)"
  using assms by (simp add: no_controls_outcome)

theorem shorter_input_not_implemented_witness:
  "length [0::nat] < length [1::nat, 2] \<and> (0::nat) < 1
   \<and> do_addition_no_controls 1 [] [0] [1, 2] = (Inl NotImplementedError, [])"
  using shorter_input_not_implemented [of "[0]" "[1, 2]" 1 "[]"] by simp

text \<open>
  C5.  Called with an input register at least as long as the target register,
  \<^verbatim>\<open>do_addition_no_controls\<close> truncates the input and calls itself again, on registers
  of equal length, where it does the same: whatever the number of frames, the call ends
  in \<^verbatim>\<open>RecursionError\<close> with nothing emitted, and the equal-length synthesizer is never
  entered.
\<close>

theorem longer_input_never_returns:
  assumes "length target_reg \<le> length input_reg"
  shows "do_addition_no_controls frames eng input_reg target_reg = (Inl RecursionError, eng)"
  using assms by (simp add: no_controls_outcome)

theorem longer_input_never_returns_witness:
  "length [1::nat] \<le> length [0::nat]
   \<and> do_addition_no_controls 1000 [] [0] [1] = (Inl RecursionError, [])"
  using longer_input_never_returns [of "[1]" "[0]" 1000 "[]"] by simp

text \<open>
  C7.  Whenever \<^verbatim>\<open>do_addition_no_controls\<close> or \<^verbatim>\<open>do_addition\<close> raises, the engine holds
  exactly the commands it held before the call: no gate has been emitted.
\<close>

theorem failure_emits_nothing:
  "(isl (fst (do_addition_no_controls frames eng input_reg target_reg))
      \<longrightarrow> snd (do_addition_no_controls frames eng input_reg target_reg) = eng)
   \<and> (isl (fst (do_addition frames eng input_reg target_reg dirty controls))
      \<longrightarrow> snd (do_addition frames eng input_reg target_reg dirty controls) = eng)"
  by (simp add: do_addition_outcome no_controls_engine)

theorem failure_emits_nothing_witness:
  "isl (fst (do_addition_no_controls 8 [cnot 5 6] [0] [1, 2]))
   \<and> snd (do_addition_no_controls 8 [cnot 5 6] [0] [1, 2]) = [cnot 5 6]
   \<and> isl (fst (do_addition 8 [cnot 5 6] [0] [1, 2] 3 [4]))
   \<and> snd (do_addition 8 [cnot 5 6] [0] [1, 2] 3 [4]) = [cnot 5 6]"
  using failure_emits_nothing [of 8 "[cnot 5 6]" "[0]" "[1, 2]" 3 "[4]"]
  by (simp add: do_addition_outcome no_controls_raises)

section \<open>The control-lifting wrapper\<close>

text \<open>
  C4.  \<^verbatim>\<open>do_addition\<close> starts by calling \<^verbatim>\<open>do_addition_no_controls\<close>, which always
  raises, so it raises too and emits nothing, with or without controls.  On a two-bit
  input holding 1, a one-bit target holding 0 and one control holding 1, the target
  should become 1; executing what was emitted leaves it at 0.
\<close>

theorem do_addition_emits_nothing:
  "isl (fst (do_addition frames eng input_reg target_reg dirty controls))
   \<and> snd (do_addition frames eng input_reg target_reg dirty controls) = eng
   \<and> do_addition frames [] [0, 1] [2] 3 [4] = (Inl RecursionError, [])
   \<and> val (run (snd (do_addition frames [] [0, 1] [2] 3 [4])) (\<lambda>q. q = 0 \<or> q = 4)) [2] = 0
   \<and> (val (\<lambda>q. q = 0 \<or> q = 4) [2] + val (\<lambda>q. q = 0 \<or> q = 4) [0, 1]) mod 2 ^ length [2::nat] = 1"
  by (simp add: do_addition_outcome no_controls_engine no_controls_raises
        no_controls_outcome run_def)

end
